theory Spec2Isabelle
  imports Main "HOL-Library.Word"
begin

section \<open>JavaScript values and strings\<close>

text \<open>
  A JavaScript string is a sequence of UTF-16 code units. The values that can reach
  \<open>detectVaraibles\<close> or come out of it are \<open>undefined\<close>, \<open>null\<close>, strings and arrays.
\<close>

type_synonym code_unit = "16 word"
type_synonym jsstring = "code_unit list"

datatype jsval = JUndefined | JNull | JStr jsstring | JArr "jsval list"

datatype error = TypeError

text \<open>A string literal of the source, character by character as code units.\<close>

definition lit :: "string \<Rightarrow> jsstring" where
  "lit s = map (\<lambda>c. word_of_nat (of_char c)) s"

abbreviation lbrace :: code_unit where "lbrace \<equiv> 0x7B"
abbreviation rbrace :: code_unit where "rbrace \<equiv> 0x7D"
abbreviation space :: code_unit where "space \<equiv> 0x20"

text \<open>\<open>Array.isArray\<close>, \<open>typeof\<close> and the truthiness test that \<open>filter\<close> applies.\<close>

fun isArray :: "jsval \<Rightarrow> bool" where
  "isArray (JArr xs) = True"
| "isArray v = False"

fun typeof :: "jsval \<Rightarrow> string" where
  "typeof JUndefined = ''undefined''"
| "typeof JNull = ''object''"
| "typeof (JStr s) = ''string''"
| "typeof (JArr xs) = ''object''"

fun truthy :: "jsval \<Rightarrow> bool" where
  "truthy JUndefined = False"
| "truthy JNull = False"
| "truthy (JStr s) = (s \<noteq> [])"
| "truthy (JArr xs) = True"

text \<open>
  \<open>String.prototype.slice(start, end)\<close>: a negative index counts from the end, both
  indices are clamped to the string, and an empty span gives the empty string.
\<close>

definition slice :: "jsstring \<Rightarrow> int \<Rightarrow> int \<Rightarrow> jsstring" where
  "slice s start end =
     (let len = int (length s);
          from = (if start < 0 then max (len + start) 0 else min start len);
          to = (if end < 0 then max (len + end) 0 else min end len)
      in take (nat (to - from)) (drop (nat from) s))"

section \<open>The regular expression\<close>

text \<open>
  The pattern \<open>/{{ \w+ }}/g\<close> is a sequence of terms: single characters, and one greedy
  \<open>+\<close> over the class \<open>\w\<close>. Without the \<open>u\<close> and \<open>i\<close> flags \<open>\w\<close> is
  \<open>[A-Za-z0-9_]\<close>.
\<close>

datatype atom = Chr code_unit | WordClass

datatype piece = Single atom | OneOrMore atom

definition is_word :: "code_unit \<Rightarrow> bool" where
  "is_word c = ((0x30 \<le> c \<and> c \<le> 0x39) \<or> (0x41 \<le> c \<and> c \<le> 0x5A) \<or> c = 0x5F
                 \<or> (0x61 \<le> c \<and> c \<le> 0x7A))"

fun atom_matches :: "atom \<Rightarrow> code_unit \<Rightarrow> bool" where
  "atom_matches (Chr a) c = (c = a)"
| "atom_matches WordClass c = is_word c"

text \<open>
  The backtracking matcher at one position of the input: the number of code units the
  pattern consumes there, or \<open>None\<close>. A greedy \<open>+\<close> first tries one more iteration and
  falls back to the rest of the pattern when that fails.
\<close>

fun matcher :: "piece list \<Rightarrow> jsstring \<Rightarrow> nat option" where
  "matcher [] s = Some 0"
| "matcher (Single a # ps) [] = None"
| "matcher (Single a # ps) (c # cs) =
     (if atom_matches a c then map_option Suc (matcher ps cs) else None)"
| "matcher (OneOrMore a # ps) [] = None"
| "matcher (OneOrMore a # ps) (c # cs) =
     (if atom_matches a c
      then (case matcher (OneOrMore a # ps) cs of
              Some n \<Rightarrow> Some (Suc n)
            | None \<Rightarrow> map_option Suc (matcher ps cs))
      else None)"

text \<open>A RegExp object with the \<open>g\<close> flag: its pattern and its mutable \<open>lastIndex\<close>.\<close>

record regexp =
  pattern :: "piece list"
  lastIndex :: nat

text \<open>
  \<open>RegExpBuiltinExec\<close> for a global RegExp: try the matcher at \<open>lastIndex\<close>, then at each
  later index; past the end of the input the search fails and \<open>lastIndex\<close> is reset to 0.
  On success \<open>lastIndex\<close> becomes the end of the match.
\<close>

function regExpBuiltinExec :: "regexp \<Rightarrow> jsstring \<Rightarrow> nat \<Rightarrow> jsstring option \<times> regexp" where
  "regExpBuiltinExec R S i =
     (if i > length S then (None, R\<lparr>lastIndex := 0\<rparr>)
      else (case matcher (pattern R) (drop i S) of
              None \<Rightarrow> regExpBuiltinExec R S (Suc i)
            | Some n \<Rightarrow> (Some (take n (drop i S)), R\<lparr>lastIndex := i + n\<rparr>)))"
  by pat_completeness auto
termination
  by (relation "measure (\<lambda>(R, S, i). Suc (length S) - i)") auto

definition regExpExec :: "regexp \<Rightarrow> jsstring \<Rightarrow> jsstring option \<times> regexp" where
  "regExpExec R S = regExpBuiltinExec R S (lastIndex R)"

text \<open>
  The loop of \<open>RegExp.prototype[Symbol.match]\<close> for a global RegExp: call exec until it
  fails, push each matched string, and step \<open>lastIndex\<close> past an empty match.
\<close>

function match_loop :: "regexp \<Rightarrow> jsstring \<Rightarrow> jsval list \<Rightarrow> jsval list \<times> regexp" where
  "match_loop rx S A =
     (case regExpExec rx S of
        (None, rx') \<Rightarrow> (A, rx')
      | (Some matchStr, rx') \<Rightarrow>
          match_loop (if matchStr = [] then rx'\<lparr>lastIndex := Suc (lastIndex rx')\<rparr> else rx') S
            (A @ [JStr matchStr]))"
  by pat_completeness auto
termination
proof (relation "measure (\<lambda>(rx, S, A). Suc (length S) - lastIndex rx)")
  show "wf (measure (\<lambda>(rx, S, A). Suc (length S) - lastIndex rx))"
    by simp
next
  fix rx :: regexp and S :: jsstring and A :: "jsval list" and x rx' m
  assume ex: "(x, rx') = regExpExec rx S" and some: "x = Some m"
  have found: "i \<le> length S \<and> i \<le> lastIndex R' \<and> (mt \<noteq> [] \<longrightarrow> i < lastIndex R')"
    if "regExpBuiltinExec R S i = (Some mt, R')" for R i mt R'
    using that
  proof (induction R S i rule: regExpBuiltinExec.induct)
    case (1 R S i)
    show ?case
    proof (cases "i > length S")
      case True
      with "1.prems" show ?thesis by simp
    next
      case False
      show ?thesis
      proof (cases "matcher (pattern R) (drop i S)")
        case None
        with False "1.prems" have "regExpBuiltinExec R S (Suc i) = (Some mt, R')"
          by simp
        with "1.IH" False None show ?thesis by fastforce
      next
        case (Some n)
        with False "1.prems" show ?thesis by (cases n) auto
      qed
    qed
  qed
  from ex some have "(Some m, rx') = regExpBuiltinExec rx S (lastIndex rx)"
    unfolding regExpExec_def by simp
  then have "regExpBuiltinExec rx S (lastIndex rx) = (Some m, rx')"
    by (rule sym)
  from found [OF this]
  show "((if m = [] then rx'\<lparr>lastIndex := Suc (lastIndex rx')\<rparr> else rx', S, A @ [JStr m]),
          rx, S, A) \<in> measure (\<lambda>(rx, S, A). Suc (length S) - lastIndex rx)"
    by auto
qed

text \<open>
  \<open>String.prototype.match\<close> with a global RegExp: \<open>lastIndex\<close> is set to 0 first; the
  result is \<open>null\<close> when nothing matched, the array of matched strings otherwise.
\<close>

definition string_match :: "jsstring \<Rightarrow> regexp \<Rightarrow> jsval \<times> regexp" where
  "string_match S rx =
     (case match_loop (rx\<lparr>lastIndex := 0\<rparr>) S [] of
        (A, rx') \<Rightarrow> (if A = [] then JNull else JArr A, rx'))"

section \<open>The extractor\<close>

text \<open>
  The source, \<open>src/index.js\<close> lines 3 to 16:
  \<^verbatim>\<open>
  function detectVaraibles(text) {
    const variableDetectorRegx = /{{ \w+ }}/g;
    const value = text;
    const matches = value.match(variableDetectorRegx);
    if (Array.isArray(matches)) {
      return matches
        .map((match) => {
          if (typeof match === "string") return match.slice(3, match.length - 3);
          return null;
        })
        .filter((match) => match);
    }
    return matches;
  }
  \<close>
\<close>

text \<open>Line 4: the RegExp object that evaluating the literal creates.\<close>

definition variableDetectorRegx :: regexp where
  "variableDetectorRegx =
     \<lparr>pattern = [Single (Chr lbrace), Single (Chr lbrace), Single (Chr space),
                 OneOrMore WordClass,
                 Single (Chr space), Single (Chr rbrace), Single (Chr rbrace)],
      lastIndex = 0\<rparr>"

text \<open>Lines 9 to 12: the callback given to \<open>map\<close>.\<close>

definition map_callback :: "jsval \<Rightarrow> jsval" where
  "map_callback match =
     (if typeof match = ''string''
      then (case match of JStr s \<Rightarrow> JStr (slice s 3 (int (length s) - 3)) | _ \<Rightarrow> JNull)
      else JNull)"

text \<open>
  Lines 5 to 15, run on a RegExp object \<open>rx\<close> in any state; the object is returned as
  the run leaves it. Reading \<open>match\<close> off a value that is \<open>undefined\<close> or \<open>null\<close>
  throws a TypeError, and so does calling it on an array, which has no such method.
\<close>

definition detectVaraibles_on :: "regexp \<Rightarrow> jsval \<Rightarrow> (error + jsval) \<times> regexp" where
  "detectVaraibles_on rx text =
     (case text of
        JStr value \<Rightarrow>
          (case string_match value rx of
             (matches, rx') \<Rightarrow>
               (if isArray matches
                then (case matches of
                        JArr ms \<Rightarrow> Inr (JArr (filter truthy (map map_callback ms)))
                      | _ \<Rightarrow> Inr matches)
                else Inr matches, rx'))
      | _ \<Rightarrow> (Inl TypeError, rx))"

text \<open>The function: each call creates its RegExp object anew and runs the body on it.\<close>

definition detectVaraibles :: "jsval \<Rightarrow> error + jsval" where
  "detectVaraibles text = fst (detectVaraibles_on variableDetectorRegx text)"

text \<open>The last three terms of the pattern, the closing \<open> }}\<close>.\<close>

abbreviation closing :: "piece list" where
  "closing \<equiv> [Single (Chr space), Single (Chr rbrace), Single (Chr rbrace)]"

section \<open>Placeholders in the input\<close>

text \<open>
  The vocabulary of the specification. A variable name is a non-empty run of word
  characters; a placeholder is a name between \<open>{{\<close> and \<open>}}\<close> with one space of
  padding on each side; an input contains a placeholder when one is a substring of it.
\<close>

definition word_name :: "jsstring \<Rightarrow> bool" where
  "word_name w = (w \<noteq> [] \<and> list_all is_word w)"

definition placeholder :: "jsstring \<Rightarrow> jsstring" where
  "placeholder w = [lbrace, lbrace, space] @ w @ [space, rbrace, rbrace]"

definition contains_placeholder :: "jsstring \<Rightarrow> bool" where
  "contains_placeholder s = (\<exists>pre w post. word_name w \<and> s = pre @ placeholder w @ post)"

text \<open>
  The same test as a scanner that can be evaluated: does a placeholder start at the head
  of the input, and does one start anywhere in it.
\<close>

definition starts_placeholder :: "jsstring \<Rightarrow> bool" where
  "starts_placeholder s =
     (take 3 s = [lbrace, lbrace, space] \<and> takeWhile is_word (drop 3 s) \<noteq> []
      \<and> take 3 (dropWhile is_word (drop 3 s)) = [space, rbrace, rbrace])"

fun has_placeholder :: "jsstring \<Rightarrow> bool" where
  "has_placeholder [] = False"
| "has_placeholder (c # cs) = (starts_placeholder (c # cs) \<or> has_placeholder cs)"

text \<open>
  An input laid out as text and placeholders alternating: each pair is the text before a
  placeholder and the name inside it; the last text follows the last placeholder.
\<close>

fun render :: "(jsstring \<times> jsstring) list \<Rightarrow> jsstring \<Rightarrow> jsstring" where
  "render [] rest = rest"
| "render ((g, w) # xs) rest = g @ placeholder w @ render xs rest"

text \<open>
  The malformed shapes: \<open>{{name}}\<close> without padding, and \<open>{{ first name }}\<close> with a
  space inside; and an input laid out as text and malformed placeholders alternating.
\<close>

datatype malformed = NoPadding jsstring | InnerSpace jsstring jsstring

fun malformed_text :: "malformed \<Rightarrow> jsstring" where
  "malformed_text (NoPadding w) = [lbrace, lbrace] @ w @ [rbrace, rbrace]"
| "malformed_text (InnerSpace v w) =
     [lbrace, lbrace, space] @ v @ [space] @ w @ [space, rbrace, rbrace]"

fun malformed_ok :: "malformed \<Rightarrow> bool" where
  "malformed_ok (NoPadding w) = word_name w"
| "malformed_ok (InnerSpace v w) = (word_name v \<and> word_name w)"

fun render_malformed :: "(jsstring \<times> malformed) list \<Rightarrow> jsstring \<Rightarrow> jsstring" where
  "render_malformed [] rest = rest"
| "render_malformed ((g, b) # xs) rest = g @ malformed_text b @ render_malformed xs rest"

text \<open>
  The values the claims speak of: a returned name is a string holding a variable name,
  and a matched string is a placeholder around one.
\<close>

fun is_name_value :: "jsval \<Rightarrow> bool" where
  "is_name_value (JStr w) = word_name w"
| "is_name_value v = False"

fun is_match :: "jsval \<Rightarrow> bool" where
  "is_match (JStr m) = (\<exists>w. word_name w \<and> m = placeholder w)"
| "is_match v = False"

section \<open>The matcher on the pattern\<close>

lemma is_word_not_special:
  "is_word c \<Longrightarrow> c \<noteq> space" "is_word c \<Longrightarrow> c \<noteq> lbrace" "is_word c \<Longrightarrow> c \<noteq> rbrace"
  by (auto simp: is_word_def)

lemma not_word_special [simp]: "\<not> is_word space" "\<not> is_word lbrace" "\<not> is_word rbrace"
  by (simp_all add: is_word_def)

lemma matcher_closing:
  "matcher closing s = (if take 3 s = [space, rbrace, rbrace] then Some 3 else None)"
proof (cases s)
  case Nil then show ?thesis by simp
next
  case (Cons a s1)
  show ?thesis
  proof (cases s1)
    case Nil with Cons show ?thesis by simp
  next
    case (Cons b s2)
    note c2 = this
    show ?thesis
    proof (cases s2)
      case Nil with c2 \<open>s = a # s1\<close> show ?thesis by simp
    next
      case (Cons c s3)
      with c2 \<open>s = a # s1\<close> show ?thesis by simp
    qed
  qed
qed

lemma matcher_name_closing:
  "matcher (OneOrMore WordClass # closing) s =
     (if takeWhile is_word s \<noteq> [] \<and> take 3 (dropWhile is_word s) = [space, rbrace, rbrace]
      then Some (length (takeWhile is_word s) + 3) else None)"
proof (induction s)
  case Nil
  show ?case by simp
next
  case (Cons c cs)
  show ?case
  proof (cases "is_word c")
    case False
    then show ?thesis by simp
  next
    case True
    note w = this
    show ?thesis
    proof (cases "takeWhile is_word cs = []")
      case True
      then have "dropWhile is_word cs = cs"
        by (cases cs) (auto split: if_splits)
      with True w Cons.IH show ?thesis
        by (simp add: matcher_closing del: matcher.simps(3))
    next
      case False
      then obtain d ds where cs: "cs = d # ds" and d: "is_word d"
        by (cases cs) (auto split: if_splits)
      then have "take 3 cs \<noteq> [space, rbrace, rbrace]"
        using is_word_not_special(1) [of d] by auto
      with False w Cons.IH show ?thesis
        by (simp add: matcher_closing del: matcher.simps(3))
    qed
  qed
qed

lemma matcher_variableDetectorRegx:
  "matcher (pattern variableDetectorRegx) s =
     (if starts_placeholder s then Some (length (takeWhile is_word (drop 3 s)) + 6) else None)"
proof -
  have three: "s = [] \<or> (\<exists>a. s = [a]) \<or> (\<exists>a b. s = [a, b]) \<or> (\<exists>a b c r. s = a # b # c # r)"
    by (metis list.exhaust)
  then show ?thesis
    by (auto simp: variableDetectorRegx_def starts_placeholder_def matcher_name_closing
             simp del: matcher.simps(5))
qed

lemma starts_placeholder_placeholder:
  assumes "word_name w"
  shows "starts_placeholder (placeholder w @ r)"
    and "takeWhile is_word (drop 3 (placeholder w @ r)) = w"
  using assms
  by (simp_all add: starts_placeholder_def placeholder_def word_name_def list_all_iff
        takeWhile_append2 dropWhile_append2 takeWhile_append1 dropWhile_append1)

lemma starts_placeholderD:
  assumes "starts_placeholder s"
  shows "\<exists>r. s = placeholder (takeWhile is_word (drop 3 s)) @ r"
    and "word_name (takeWhile is_word (drop 3 s))"
proof -
  let ?w = "takeWhile is_word (drop 3 s)" and ?d = "dropWhile is_word (drop 3 s)"
  from assms have a: "take 3 s = [lbrace, lbrace, space]" and b: "?w \<noteq> []"
    and c: "take 3 ?d = [space, rbrace, rbrace]"
    by (simp_all add: starts_placeholder_def)
  have "s = take 3 s @ drop 3 s" by simp
  also have "drop 3 s = ?w @ ?d" by simp
  also have "?d = take 3 ?d @ drop 3 ?d" by simp
  finally have "s = placeholder ?w @ drop 3 ?d"
    using a c by (simp add: placeholder_def)
  then show "\<exists>r. s = placeholder ?w @ r" ..
  show "word_name ?w"
    using b by (auto simp: word_name_def list_all_iff dest: set_takeWhileD)
qed

lemma list_three_cases:
  "s = [] \<or> (\<exists>a. s = [a]) \<or> (\<exists>a b. s = [a, b]) \<or> (\<exists>a b c r. s = a # b # c # r)"
  by (metis list.exhaust)

lemma takeWhile_dropWhile_stop:
  assumes "\<not> P x"
  shows "takeWhile P (r @ x # t) = takeWhile P r"
    and "dropWhile P (r @ x # t) = dropWhile P r @ x # t"
  using assms by (induction r) simp_all

lemma take3_before_braces:
  "(take 3 (d @ lbrace # lbrace # t) = [space, rbrace, rbrace]) = (take 3 d = [space, rbrace, rbrace])"
  using list_three_cases [of d] by auto

lemma starts_placeholder_straddle:
  assumes "s \<noteq> []"
  shows "starts_placeholder (s @ lbrace # lbrace # t) = starts_placeholder s"
  using list_three_cases [of s] assms
  by (auto simp: starts_placeholder_def takeWhile_dropWhile_stop take3_before_braces
           simp del: take_append)

lemma has_placeholder_before_braces:
  assumes "\<not> has_placeholder g"
  shows "has_placeholder (g @ lbrace # lbrace # t) = has_placeholder (lbrace # lbrace # t)"
  using assms
proof (induction g)
  case Nil
  show ?case by simp
next
  case (Cons c g)
  then show ?case
    using starts_placeholder_straddle [of "c # g" t] by simp
qed

lemma has_placeholder_skip:
  assumes "list_all (\<lambda>c. c \<noteq> lbrace) u"
  shows "has_placeholder (u @ r) = has_placeholder r"
  using assms by (induction u) (auto simp: starts_placeholder_def)

lemma has_placeholder_iff: "has_placeholder s = contains_placeholder s"
proof
  assume "has_placeholder s"
  then show "contains_placeholder s"
  proof (induction s)
    case Nil
    then show ?case by simp
  next
    case (Cons c cs)
    show ?case
    proof (cases "starts_placeholder (c # cs)")
      case True
      from starts_placeholderD [OF this] show ?thesis
        unfolding contains_placeholder_def by (metis append_Nil)
    next
      case False
      with Cons have "contains_placeholder cs" by simp
      then show ?thesis
        unfolding contains_placeholder_def by (metis append_Cons)
    qed
  qed
next
  assume "contains_placeholder s"
  then obtain pre w post where w: "word_name w" and s: "s = pre @ placeholder w @ post"
    unfolding contains_placeholder_def by blast
  have "has_placeholder (pre @ placeholder w @ post)"
  proof (induction pre)
    case Nil
    from starts_placeholder_placeholder(1) [OF w, of post] show ?case
      by (simp add: placeholder_def)
  next
    case (Cons c pre)
    then show ?case by simp
  qed
  with s show "has_placeholder s" by simp
qed

section \<open>Exec and the match loop\<close>

declare regExpBuiltinExec.simps [simp del]
declare match_loop.simps [simp del]

lemma matcher_le: "matcher ps s = Some n \<Longrightarrow> n \<le> length s"
  by (induction ps s arbitrary: n rule: matcher.induct)
     (auto split: if_splits option.splits)

lemma exec_result:
  assumes "regExpBuiltinExec R S i = (x, R')"
  shows "(x = None \<and> R' = R\<lparr>lastIndex := 0\<rparr>)
         \<or> (\<exists>j n. matcher (pattern R) (drop j S) = Some n \<and> x = Some (take n (drop j S))
                   \<and> R' = R\<lparr>lastIndex := j + n\<rparr>)"
  using assms
proof (induction R S i rule: regExpBuiltinExec.induct)
  case (1 R S i)
  show ?case
  proof (cases "i > length S")
    case True
    with "1.prems" show ?thesis
      by (simp add: regExpBuiltinExec.simps [of R S i])
  next
    case False
    show ?thesis
    proof (cases "matcher (pattern R) (drop i S)")
      case None
      with False "1.prems" have "regExpBuiltinExec R S (Suc i) = (x, R')"
        by (simp add: regExpBuiltinExec.simps [of R S i])
      with "1.IH" False None show ?thesis by simp
    next
      case (Some n)
      with False "1.prems" have "x = Some (take n (drop i S))" "R' = R\<lparr>lastIndex := i + n\<rparr>"
        by (simp_all add: regExpBuiltinExec.simps [of R S i])
      with Some show ?thesis by blast
    qed
  qed
qed

lemma exec_no_placeholder:
  assumes "pattern R = pattern variableDetectorRegx"
    and "\<not> has_placeholder g" and "drop i S = g" and "i \<le> length S"
  shows "regExpBuiltinExec R S i = (None, R\<lparr>lastIndex := 0\<rparr>)"
  using assms(2-)
proof (induction g arbitrary: i)
  case Nil
  then have i: "i = length S" by simp
  have "regExpBuiltinExec R S (Suc (length S)) = (None, R\<lparr>lastIndex := 0\<rparr>)"
    by (simp add: regExpBuiltinExec.simps [of R S "Suc (length S)"])
  then have "regExpBuiltinExec R S (length S) = (None, R\<lparr>lastIndex := 0\<rparr>)"
    using assms(1)
    by (simp add: regExpBuiltinExec.simps [of R S "length S"]
          matcher_variableDetectorRegx starts_placeholder_def)
  with i show ?case by simp
next
  case (Cons c g)
  from Cons.prems have lt: "i < length S"
    by (metis drop_all le_neq_implies_less list.distinct(1) order_refl)
  from Cons.prems have "drop (Suc i) S = g"
    by (metis drop_Suc list.sel(3) tl_drop)
  with Cons lt have "regExpBuiltinExec R S (Suc i) = (None, R\<lparr>lastIndex := 0\<rparr>)"
    by simp
  with Cons.prems assms(1) lt show ?case
    by (simp add: regExpBuiltinExec.simps [of R S i] matcher_variableDetectorRegx)
qed

lemma exec_next_placeholder:
  assumes "pattern R = pattern variableDetectorRegx" and "word_name w"
    and "\<not> has_placeholder g" and "drop i S = g @ placeholder w @ r" 
  shows "regExpBuiltinExec R S i =
           (Some (placeholder w), R\<lparr>lastIndex := i + length g + length (placeholder w)\<rparr>)"
  using assms(3-)
proof (induction g arbitrary: i)
  case Nil
  then have i: "i \<le> length S"
    by (metis append_is_Nil_conv drop_all linorder_le_cases list.distinct(1) placeholder_def append_Cons)
  have n: "length (placeholder w) = length w + 6"
    by (simp add: placeholder_def)
  from Nil have d: "drop i S = placeholder w @ r" by simp
  have m: "matcher (pattern R) (drop i S) = Some (length (placeholder w))"
    unfolding d assms(1) matcher_variableDetectorRegx
    using starts_placeholder_placeholder [OF assms(2), of r] by (simp add: n)
  have t: "take (length (placeholder w)) (drop i S) = placeholder w"
    unfolding d by simp
  show ?case
    using i by (simp add: regExpBuiltinExec.simps [of R S i] m t)
next
  case (Cons c g)
  from Cons.prems have lt: "i < length S"
    by (metis drop_all Cons_eq_appendI list.distinct(1) not_le_imp_less)
  from Cons.prems have d: "drop (Suc i) S = g @ placeholder w @ r"
    by (metis drop_Suc list.sel(3) tl_drop append_Cons)
  have "\<not> starts_placeholder ((c # g) @ placeholder w @ r)"
    using starts_placeholder_straddle [of "c # g"] Cons.prems(1)
    by (simp add: placeholder_def)
  with Cons.prems have "matcher (pattern R) (drop i S) = None"
    using assms(1) by (simp add: matcher_variableDetectorRegx)
  moreover from Cons.IH [OF _ d] Cons.prems(1)
  have "regExpBuiltinExec R S (Suc i) =
         (Some (placeholder w), R\<lparr>lastIndex := Suc i + length g + length (placeholder w)\<rparr>)"
    by simp
  ultimately show ?case
    using lt by (simp add: regExpBuiltinExec.simps [of R S i])
qed

lemma regexp_reset_eq:
  "pattern (R :: regexp) = pattern R' \<Longrightarrow> R\<lparr>lastIndex := k\<rparr> = R'\<lparr>lastIndex := k\<rparr>"
  by (cases R, cases R') simp

lemma match_loop_state: "snd (match_loop rx S A) = rx\<lparr>lastIndex := 0\<rparr>"
proof (induction rx S A rule: match_loop.induct)
  case (1 rx S A)
  obtain x rx' where ex: "regExpExec rx S = (x, rx')"
    by (cases "regExpExec rx S")
  then have r: "regExpBuiltinExec rx S (lastIndex rx) = (x, rx')"
    by (simp add: regExpExec_def)
  show ?case
  proof (cases x)
    case None
    with exec_result [OF r] ex show ?thesis
      by (simp add: match_loop.simps [of rx S A])
  next
    case (Some m)
    with exec_result [OF r] obtain k where k: "rx' = rx\<lparr>lastIndex := k\<rparr>"
      by auto
    let ?rx = "if m = [] then rx'\<lparr>lastIndex := Suc (lastIndex rx')\<rparr> else rx'"
    from "1.IH" [OF ex [symmetric] Some]
    have "snd (match_loop ?rx S (A @ [JStr m])) = ?rx\<lparr>lastIndex := 0\<rparr>" .
    with ex Some k show ?thesis
      by (cases "m = []") (simp_all add: match_loop.simps [of rx S A])
  qed
qed

lemma match_loop_matches:
  assumes "pattern rx = pattern variableDetectorRegx" and "list_all is_match A"
  shows "list_all is_match (fst (match_loop rx S A))"
  using assms
proof (induction rx S A rule: match_loop.induct)
  case (1 rx S A)
  obtain x rx' where ex: "regExpExec rx S = (x, rx')"
    by (cases "regExpExec rx S")
  then have r: "regExpBuiltinExec rx S (lastIndex rx) = (x, rx')"
    by (simp add: regExpExec_def)
  show ?case
  proof (cases x)
    case None
    with ex "1.prems" show ?thesis
      by (simp add: match_loop.simps [of rx S A])
  next
    case (Some m)
    with exec_result [OF r] obtain j n where
      mt: "matcher (pattern rx) (drop j S) = Some n" and m: "m = take n (drop j S)"
      and k: "rx' = rx\<lparr>lastIndex := j + n\<rparr>"
      by auto
    from mt "1.prems"(1) have sp: "starts_placeholder (drop j S)"
      and n: "n = length (takeWhile is_word (drop 3 (drop j S))) + 6"
      by (simp_all add: matcher_variableDetectorRegx split: if_splits)
    let ?w = "takeWhile is_word (drop 3 (drop j S))"
    from starts_placeholderD [OF sp] obtain r where
      d: "drop j S = placeholder ?w @ r" and w: "word_name ?w"
      by blast
    have "length (placeholder ?w) = n"
      by (simp add: placeholder_def n)
    with m d have "m = placeholder ?w"
      by (metis append_eq_conv_conj)
    with w have im: "is_match (JStr m)" by auto
    let ?rx = "if m = [] then rx'\<lparr>lastIndex := Suc (lastIndex rx')\<rparr> else rx'"
    have "pattern ?rx = pattern variableDetectorRegx"
      using k "1.prems"(1) by simp
    moreover have "list_all is_match (A @ [JStr m])"
      using "1.prems"(2) im by simp
    ultimately have "list_all is_match (fst (match_loop ?rx S (A @ [JStr m])))"
      by (rule "1.IH" [OF ex [symmetric] Some])
    with ex Some show ?thesis
      by (simp add: match_loop.simps [of rx S A])
  qed
qed

lemma match_loop_render:
  assumes "pattern rx = pattern variableDetectorRegx"
    and "list_all (\<lambda>(g, w). \<not> has_placeholder g \<and> word_name w) xs"
    and "\<not> has_placeholder rest"
    and "drop (lastIndex rx) S = render xs rest" and "lastIndex rx \<le> length S"
  shows "fst (match_loop rx S A) = A @ map (\<lambda>(g, w). JStr (placeholder w)) xs"
  using assms
proof (induction xs arbitrary: rx A)
  case Nil
  then have "regExpExec rx S = (None, rx\<lparr>lastIndex := 0\<rparr>)"
    unfolding regExpExec_def by (intro exec_no_placeholder) simp_all
  then show ?case
    by (simp add: match_loop.simps [of rx S A])
next
  case (Cons p xs)
  obtain g w where p: "p = (g, w)" by (cases p)
  let ?i = "lastIndex rx"
  let ?k = "?i + length g + length (placeholder w)"
  from Cons.prems p have g: "\<not> has_placeholder g" and w: "word_name w"
    and xs: "list_all (\<lambda>(g, w). \<not> has_placeholder g \<and> word_name w) xs"
    and d: "drop ?i S = g @ placeholder w @ render xs rest"
    by simp_all
  have ex: "regExpExec rx S = (Some (placeholder w), rx\<lparr>lastIndex := ?k\<rparr>)"
    unfolding regExpExec_def
    by (rule exec_next_placeholder [OF Cons.prems(1) w g d])
  have ne: "placeholder w \<noteq> []"
    by (simp add: placeholder_def)
  have "length S - ?i = length g + length (placeholder w) + length (render xs rest)"
    using arg_cong [OF d, of length] by simp
  with Cons.prems(5) have le: "?k \<le> length S" by simp
  have "drop ?k S = drop (length g + length (placeholder w)) (drop ?i S)"
    by (simp add: add.commute add.left_commute)
  also have "\<dots> = render xs rest"
    unfolding d by simp
  finally have d': "drop (lastIndex (rx\<lparr>lastIndex := ?k\<rparr>)) S = render xs rest"
    by simp
  have "fst (match_loop (rx\<lparr>lastIndex := ?k\<rparr>) S (A @ [JStr (placeholder w)]))
          = (A @ [JStr (placeholder w)]) @ map (\<lambda>(g, w). JStr (placeholder w)) xs"
    using Cons.prems(1) le
    by (intro Cons.IH [OF _ xs Cons.prems(3) d']) simp_all
  with ex ne p show ?case
    by (simp add: match_loop.simps [of rx S A])
qed

section \<open>The extractor in closed form\<close>

lemma slice_placeholder:
  "slice (placeholder w) 3 (int (length (placeholder w)) - 3) = w"
  by (simp add: slice_def placeholder_def Let_def)

lemma map_callback_placeholder: "map_callback (JStr (placeholder w)) = JStr w"
  by (simp add: map_callback_def slice_placeholder)

lemma is_matchE:
  assumes "is_match v"
  obtains w where "word_name w" and "v = JStr (placeholder w)"
  using assms by (cases v) auto

lemma map_callback_matches:
  assumes "list_all is_match ms"
  shows "filter truthy (map map_callback ms) = map map_callback ms"
    and "list_all is_name_value (map map_callback ms)"
    and "list_all (\<lambda>m. typeof m = ''string'') ms"
  using assms
  by (induction ms) (auto elim!: is_matchE simp: map_callback_placeholder word_name_def)

lemma variableDetectorRegx_reset:
  assumes "pattern rx = pattern variableDetectorRegx"
  shows "rx\<lparr>lastIndex := 0\<rparr> = variableDetectorRegx"
  using regexp_reset_eq [OF assms, of 0] by (simp add: variableDetectorRegx_def)

lemma string_match_unfold:
  assumes "pattern rx = pattern variableDetectorRegx"
  shows "string_match s rx =
           (let A = fst (match_loop variableDetectorRegx s [])
            in (if A = [] then JNull else JArr A, variableDetectorRegx))"
proof -
  have "snd (match_loop variableDetectorRegx s []) = variableDetectorRegx"
    using match_loop_state [of variableDetectorRegx s "[]"]
    by (simp add: variableDetectorRegx_def)
  then show ?thesis
    by (simp add: string_match_def variableDetectorRegx_reset [OF assms] split_beta Let_def)
qed

lemma detectVaraibles_on_unfold:
  assumes "pattern rx = pattern variableDetectorRegx"
  shows "detectVaraibles_on rx (JStr s) =
           (let A = fst (match_loop variableDetectorRegx s [])
            in (if A = [] then Inr JNull else Inr (JArr (filter truthy (map map_callback A))),
                variableDetectorRegx))"
  by (simp add: detectVaraibles_on_def string_match_unfold [OF assms] Let_def)

lemma detectVaraibles_unfold:
  "detectVaraibles (JStr s) =
     (let A = fst (match_loop variableDetectorRegx s [])
      in if A = [] then Inr JNull else Inr (JArr (map map_callback A)))"
proof -
  have "list_all is_match (fst (match_loop variableDetectorRegx s []))"
    by (rule match_loop_matches) simp_all
  from map_callback_matches(1) [OF this] show ?thesis
    by (simp add: detectVaraibles_def detectVaraibles_on_unfold Let_def)
qed

lemma detectVaraibles_render:
  assumes "list_all (\<lambda>(g, w). \<not> has_placeholder g \<and> word_name w) xs"
    and "\<not> has_placeholder rest"
  shows "detectVaraibles (JStr (render xs rest)) =
           (if xs = [] then Inr JNull else Inr (JArr (map (\<lambda>(g, w). JStr w) xs)))"
proof -
  have "fst (match_loop variableDetectorRegx (render xs rest) [])
          = [] @ map (\<lambda>(g, w). JStr (placeholder w)) xs"
    using assms by (intro match_loop_render) (simp_all add: variableDetectorRegx_def)
  then show ?thesis
    by (simp add: detectVaraibles_unfold Let_def map_callback_placeholder split_beta o_def)
qed

section \<open>Malformed placeholders\<close>

lemma placeholder_lit: "placeholder w = lit ''{{ '' @ w @ lit '' }}''"
  by (simp add: lit_def placeholder_def)

lemma malformed_text_skip:
  assumes "malformed_ok b"
  shows "has_placeholder (malformed_text b @ r) = has_placeholder r"
proof (cases b)
  case (NoPadding w)
  with assms obtain c cs where w: "w = c # cs" and c: "is_word c" and cs: "list_all is_word cs"
    by (cases w) (auto simp: word_name_def)
  have "list_all (\<lambda>c. c \<noteq> lbrace) (w @ [rbrace, rbrace])"
    using w c cs is_word_not_special(2) by (auto simp: list_all_iff)
  from has_placeholder_skip [OF this, of r] w c show ?thesis
    using is_word_not_special [of c]
    by (simp add: NoPadding starts_placeholder_def)
next
  case (InnerSpace v w)
  with assms obtain c cs where w: "w = c # cs" and c: "is_word c" and cs: "list_all is_word cs"
    and v: "v \<noteq> []" "list_all is_word v"
    by (cases w) (auto simp: word_name_def)
  have "list_all (\<lambda>c. c \<noteq> lbrace) (space # v @ space # w @ [space, rbrace, rbrace])"
    using w c cs v is_word_not_special(2) by (auto simp: list_all_iff)
  from has_placeholder_skip [OF this, of r] w c v show ?thesis
    using is_word_not_special [of c]
    by (simp add: InnerSpace starts_placeholder_def takeWhile_dropWhile_stop list_all_iff)
qed

lemma render_malformed_free:
  assumes "list_all (\<lambda>(g, b). \<not> has_placeholder g \<and> malformed_ok b) xs"
    and "\<not> has_placeholder rest"
  shows "\<not> has_placeholder (render_malformed xs rest)"
  using assms
proof (induction xs)
  case Nil
  then show ?case by simp
next
  case (Cons p xs)
  obtain g b where p: "p = (g, b)" by (cases p)
  with Cons.prems have g: "\<not> has_placeholder g" and b: "malformed_ok b" by simp_all
  obtain t where t: "malformed_text b = lbrace # lbrace # t"
    by (cases b) simp_all
  have "has_placeholder (g @ malformed_text b @ render_malformed xs rest)
          = has_placeholder (malformed_text b @ render_malformed xs rest)"
    using has_placeholder_before_braces [OF g] by (simp add: t)
  with Cons p b show ?case
    by (simp add: malformed_text_skip)
qed

section \<open>Every input is text around placeholders\<close>

lemma starts_placeholder_append:
  assumes "starts_placeholder d"
  shows "starts_placeholder (d @ t)"
proof -
  from starts_placeholderD [OF assms] obtain w r where "d = placeholder w @ r" "word_name w"
    by blast
  with starts_placeholder_placeholder(1) [of w "r @ t"] show ?thesis by simp
qed

lemma first_placeholder:
  assumes "has_placeholder s"
  shows "\<exists>g d. s = g @ d \<and> \<not> has_placeholder g \<and> starts_placeholder d"
  using assms
proof (induction s)
  case Nil
  then show ?case by simp
next
  case (Cons c cs)
  show ?case
  proof (cases "starts_placeholder (c # cs)")
    case True
    then have "c # cs = [] @ (c # cs) \<and> \<not> has_placeholder [] \<and> starts_placeholder (c # cs)"
      by simp
    then show ?thesis by blast
  next
    case False
    with Cons obtain g d where cs: "cs = g @ d" and g: "\<not> has_placeholder g"
      and d: "starts_placeholder d"
      by auto
    have "\<not> starts_placeholder (c # g)"
      using starts_placeholder_append [of "c # g" d] False cs by auto
    with cs g d have "c # cs = (c # g) @ d \<and> \<not> has_placeholder (c # g) \<and> starts_placeholder d"
      by simp
    then show ?thesis by blast
  qed
qed

lemma render_complete:
  "\<exists>xs rest. s = render xs rest
      \<and> list_all (\<lambda>(g, w). \<not> contains_placeholder g \<and> word_name w) xs
      \<and> \<not> contains_placeholder rest"
proof (induction s rule: length_induct)
  case (1 s)
  show ?case
  proof (cases "has_placeholder s")
    case False
    then have "s = render [] s
        \<and> list_all (\<lambda>(g, w). \<not> contains_placeholder g \<and> word_name w) []
        \<and> \<not> contains_placeholder s"
      by (simp add: has_placeholder_iff)
    then show ?thesis by blast
  next
    case True
    from first_placeholder [OF this] obtain g d where s: "s = g @ d"
      and g: "\<not> has_placeholder g" and d: "starts_placeholder d"
      by blast
    from starts_placeholderD [OF d] obtain w r where dr: "d = placeholder w @ r"
      and w: "word_name w"
      by blast
    have "length r < length s"
      by (simp add: s dr placeholder_def)
    with 1 obtain xs rest where r: "r = render xs rest"
      and xs: "list_all (\<lambda>(g, w). \<not> contains_placeholder g \<and> word_name w) xs"
      and rest: "\<not> contains_placeholder rest"
      by blast
    have "s = render ((g, w) # xs) rest
        \<and> list_all (\<lambda>(g, w). \<not> contains_placeholder g \<and> word_name w) ((g, w) # xs)
        \<and> \<not> contains_placeholder rest"
      using s dr r g w xs rest by (simp add: has_placeholder_iff)
    then show ?thesis by blast
  qed
qed

lemma matches_kept:
  assumes "list_all is_match ms"
  shows "list_all (\<lambda>m. typeof m = ''string'' \<and> truthy (map_callback m)) ms"
  using assms
  by (induction ms) (auto elim!: is_matchE simp: map_callback_placeholder word_name_def)

section \<open>The claims\<close>

text \<open>
  Claim C1, as amended: for every input string with no substring that is a
  single-space-padded placeholder, the empty string included, \<open>detectVaraibles\<close>
  returns \<open>null\<close>. \<open>match\<close> gives \<open>null\<close> when nothing matches, and the function
  returns that value as it is.
\<close>

theorem no_placeholder_gives_null:
  assumes "\<not> contains_placeholder s"
  shows "detectVaraibles (JStr s) = Inr JNull"
  using detectVaraibles_render [of "[]" s] assms
  by (simp add: has_placeholder_iff)

theorem no_placeholder_gives_null_witness:
  "\<not> contains_placeholder (lit ''no {{ placeholder } here'')
   \<and> detectVaraibles (JStr (lit ''no {{ placeholder } here'')) = Inr JNull"
proof -
  have h: "\<not> contains_placeholder (lit ''no {{ placeholder } here'')"
    unfolding has_placeholder_iff [symmetric] by code_simp
  from h no_placeholder_gives_null [OF h] show ?thesis by simp
qed

text \<open>
  The claim as written asks for an empty array. On the empty string, which holds no
  placeholder, the result is \<open>null\<close> and not \<open>[]\<close>.
\<close>

theorem empty_input_not_empty_array:
  "\<not> contains_placeholder [] \<and> detectVaraibles (JStr []) = Inr JNull
   \<and> detectVaraibles (JStr []) \<noteq> Inr (JArr [])"
proof -
  have "\<not> has_placeholder []" by simp
  moreover have "detectVaraibles (JStr []) = Inr JNull" by code_simp
  ultimately show ?thesis by (simp add: has_placeholder_iff)
qed

text \<open>
  Claim C2, as amended: an input made only of placeholder-free text and malformed
  placeholders of the shapes \<open>{{name}}\<close> and \<open>{{ first name }}\<close> is not matched
  anywhere, and the result is \<open>null\<close>, holding no element. The shape \<open>{{{ x }}}\<close> holds
  the well-formed \<open>{{ x }}\<close> between its outer braces: it is matched there and
  contributes \<open>x\<close>.
\<close>

theorem malformed_shapes:
  "(list_all (\<lambda>(g, b). \<not> contains_placeholder g \<and> malformed_ok b) xs
      \<and> \<not> contains_placeholder rest
    \<longrightarrow> detectVaraibles (JStr (render_malformed xs rest)) = Inr JNull)
   \<and> (word_name x
    \<longrightarrow> detectVaraibles (JStr ([lbrace] @ placeholder x @ [rbrace])) = Inr (JArr [JStr x]))"
proof (intro conjI impI)
  assume "list_all (\<lambda>(g, b). \<not> contains_placeholder g \<and> malformed_ok b) xs
            \<and> \<not> contains_placeholder rest"
  then have "\<not> has_placeholder (render_malformed xs rest)"
    by (intro render_malformed_free) (simp_all add: has_placeholder_iff)
  with detectVaraibles_render [of "[]" "render_malformed xs rest"]
  show "detectVaraibles (JStr (render_malformed xs rest)) = Inr JNull"
    by simp
next
  assume "word_name x"
  with detectVaraibles_render [of "[([lbrace], x)]" "[rbrace]"]
  show "detectVaraibles (JStr ([lbrace] @ placeholder x @ [rbrace])) = Inr (JArr [JStr x])"
    by (simp add: starts_placeholder_def)
qed

theorem malformed_shapes_witness:
  "detectVaraibles (JStr (lit ''{{name}} and {{ first name }}'')) = Inr JNull
   \<and> detectVaraibles (JStr (lit ''{{{ user_1 }}}'')) = Inr (JArr [JStr (lit ''user_1'')])"
proof -
  let ?xs = "[([], NoPadding (lit ''name'')), (lit '' and '', InnerSpace (lit ''first'') (lit ''name''))]"
  have h1: "list_all (\<lambda>(g, b). \<not> contains_placeholder g \<and> malformed_ok b) ?xs"
    unfolding has_placeholder_iff [symmetric] by code_simp
  have h2: "\<not> contains_placeholder []"
    unfolding has_placeholder_iff [symmetric] by simp
  have h3: "word_name (lit ''user_1'')" by code_simp
  have r1: "render_malformed ?xs [] = lit ''{{name}} and {{ first name }}''"
    by (simp add: lit_def)
  have r2: "[lbrace] @ placeholder (lit ''user_1'') @ [rbrace] = lit ''{{{ user_1 }}}''"
    by (simp add: lit_def placeholder_def)
  from malformed_shapes [of ?xs "[]" "lit ''user_1''"] h1 h2 h3 show ?thesis
    unfolding r1 r2 by blast
qed

text \<open>
  The claim as written says \<open>{{{ x }}}\<close> is not matched; the extractor returns
  \<open>["x"]\<close> for it.
\<close>

theorem triple_braces_matched:
  "detectVaraibles (JStr (lit ''{{{ x }}}'')) = Inr (JArr [JStr (lit ''x'')])"
  by code_simp

text \<open>
  Claim C3, as amended: for the input \<open>{{name}}\<close> nothing matches and the extractor
  returns \<open>null\<close>.
\<close>

theorem unpadded_name_gives_null:
  "detectVaraibles (JStr (lit ''{{name}}'')) = Inr JNull"
  by code_simp

text \<open>The claim as written gives \<open>[]\<close> as the result for \<open>{{name}}\<close>.\<close>

theorem unpadded_name_not_empty_array:
  "detectVaraibles (JStr (lit ''{{name}}'')) \<noteq> Inr (JArr [])"
  by code_simp

text \<open>
  Claim C4: an input that is exactly one well-formed placeholder gives the one-element
  array of its name. The match is the whole input, and the callback of \<open>map\<close> cuts its
  first three and last three code units away, leaving the name. For \<open>{{ name }}\<close> the
  result is \<open>["name"]\<close>.
\<close>

theorem single_placeholder:
  assumes "word_name w"
  shows "detectVaraibles (JStr (lit ''{{ '' @ w @ lit '' }}'')) = Inr (JArr [JStr w])
         \<and> fst (string_match (lit ''{{ '' @ w @ lit '' }}'') variableDetectorRegx)
             = JArr [JStr (lit ''{{ '' @ w @ lit '' }}'')]
         \<and> map_callback (JStr (lit ''{{ '' @ w @ lit '' }}'')) = JStr w"
proof -
  let ?xs = "[([], w)] :: (jsstring \<times> jsstring) list"
  have "fst (match_loop variableDetectorRegx (render ?xs []) [])
          = [] @ map (\<lambda>(g, w). JStr (placeholder w)) ?xs"
    using assms by (intro match_loop_render) (simp_all add: variableDetectorRegx_def)
  then have "fst (string_match (placeholder w) variableDetectorRegx) = JArr [JStr (placeholder w)]"
    by (simp add: string_match_unfold Let_def)
  moreover from detectVaraibles_render [of "[([], w)]" "[]"] assms
  have "detectVaraibles (JStr (placeholder w)) = Inr (JArr [JStr w])"
    by simp
  ultimately show ?thesis
    by (simp add: placeholder_lit [symmetric] map_callback_placeholder)
qed

theorem single_placeholder_witness:
  "word_name (lit ''name'')
   \<and> detectVaraibles (JStr (lit ''{{ name }}'')) = Inr (JArr [JStr (lit ''name'')])"
proof -
  have h: "word_name (lit ''name'')" by code_simp
  have r: "lit ''{{ '' @ lit ''name'' @ lit '' }}'' = lit ''{{ name }}''"
    by (simp add: lit_def)
  from single_placeholder [OF h] h show ?thesis
    unfolding r by blast
qed

text \<open>
  Claim C5: for every input holding several well-formed placeholders, its text laid out
  as placeholder-free stretches around them, the extractor returns their names from left
  to right. By \<open>render_complete\<close> every input has such a layout. For
  \<open>Hello {{ first }} {{ last }}!\<close> the result is \<open>["first", "last"]\<close>.
\<close>

theorem names_in_order:
  assumes "xs \<noteq> []"
    and "list_all (\<lambda>(g, w). \<not> contains_placeholder g \<and> word_name w) xs"
    and "\<not> contains_placeholder rest"
  shows "detectVaraibles (JStr (render xs rest)) = Inr (JArr (map (\<lambda>(g, w). JStr w) xs))"
  using detectVaraibles_render [of xs rest] assms
  by (simp add: has_placeholder_iff)

theorem names_in_order_witness:
  "detectVaraibles (JStr (lit ''Hello {{ first }} {{ last }}!''))
     = Inr (JArr [JStr (lit ''first''), JStr (lit ''last'')])"
proof -
  let ?xs = "[(lit ''Hello '', lit ''first''), (lit '' '', lit ''last'')]"
  have h1: "?xs \<noteq> []" by simp
  have h2: "list_all (\<lambda>(g, w). \<not> contains_placeholder g \<and> word_name w) ?xs"
    unfolding has_placeholder_iff [symmetric] by code_simp
  have h3: "\<not> contains_placeholder (lit ''!'')"
    unfolding has_placeholder_iff [symmetric] by code_simp
  have r: "render ?xs (lit ''!'') = lit ''Hello {{ first }} {{ last }}!''"
    by (simp add: lit_def placeholder_def)
  from names_in_order [OF h1 h2 h3] show ?thesis
    unfolding r by simp
qed

text \<open>
  Claim C6: every occurrence of a placeholder contributes its own element. The result
  has as many elements as the input has placeholders, and each name occurs in it as often
  as it occurs among them. For \<open>{{ a }} {{ a }}\<close> the result holds \<open>a\<close> twice.
\<close>

theorem duplicates_preserved:
  assumes "xs \<noteq> []"
    and "list_all (\<lambda>(g, w). \<not> contains_placeholder g \<and> word_name w) xs"
    and "\<not> contains_placeholder rest"
  shows "\<exists>ys. detectVaraibles (JStr (render xs rest)) = Inr (JArr ys)
              \<and> length ys = length xs
              \<and> count_list ys (JStr w) = count_list (map snd xs) w"
proof -
  let ?ys = "map (\<lambda>(g, w). JStr w) xs"
  have "detectVaraibles (JStr (render xs rest)) = Inr (JArr ?ys)"
    using detectVaraibles_render [of xs rest] assms
    by (simp add: has_placeholder_iff)
  moreover have "count_list ?ys (JStr w) = count_list (map snd xs) w"
    by (induction xs) auto
  ultimately show ?thesis by simp
qed

theorem duplicates_preserved_witness:
  "\<exists>ys. detectVaraibles (JStr (lit ''{{ a }} {{ a }}'')) = Inr (JArr ys)
         \<and> length ys = 2 \<and> count_list ys (JStr (lit ''a'')) = 2"
proof -
  let ?xs = "[([], lit ''a''), (lit '' '', lit ''a'')]"
  have h1: "?xs \<noteq> []" by simp
  have h2: "list_all (\<lambda>(g, w). \<not> contains_placeholder g \<and> word_name w) ?xs"
    unfolding has_placeholder_iff [symmetric] by code_simp
  have h3: "\<not> contains_placeholder []"
    unfolding has_placeholder_iff [symmetric] by simp
  have r: "render ?xs [] = lit ''{{ a }} {{ a }}''"
    by (simp add: lit_def placeholder_def)
  from duplicates_preserved [OF h1 h2 h3, of "lit ''a''"] show ?thesis
    unfolding r by (simp add: numeral_2_eq_2)
qed

text \<open>
  Claim C7: on every string the extractor returns a value, \<open>null\<close> or an array, and
  never an error: the loops of \<open>match\<close> terminate on every input, and no step of the
  function can throw on a string.
\<close>

theorem detectVaraibles_total:
  "detectVaraibles (JStr s) = Inr JNull \<or> (\<exists>ys. detectVaraibles (JStr s) = Inr (JArr ys))"
  by (simp add: detectVaraibles_unfold Let_def)

theorem detectVaraibles_total_witness:
  "detectVaraibles (JStr [0xD83D, 0xDE00, lbrace, lbrace, space, 0xE9]) = Inr JNull
   \<or> (\<exists>ys. detectVaraibles (JStr [0xD83D, 0xDE00, lbrace, lbrace, space, 0xE9]) = Inr (JArr ys))"
  using detectVaraibles_total [of "[0xD83D, 0xDE00, lbrace, lbrace, space, 0xE9]"] by simp

text \<open>
  Claim C8: the only mutable state in reach is \<open>lastIndex\<close> of the RegExp object.
  Whatever \<open>lastIndex\<close> holds when the body runs, the result on a string is what a fresh
  call returns, and the object is left as the literal creates it; a second run on the
  object the first one leaves behind returns the same result.
\<close>

theorem detectVaraibles_stateless:
  assumes "pattern rx = pattern variableDetectorRegx"
  shows "detectVaraibles_on rx (JStr s) = (detectVaraibles (JStr s), variableDetectorRegx)
         \<and> fst (detectVaraibles_on (snd (detectVaraibles_on rx (JStr s))) (JStr s))
             = fst (detectVaraibles_on rx (JStr s))"
  by (simp add: detectVaraibles_def detectVaraibles_on_unfold [OF assms]
        detectVaraibles_on_unfold [of variableDetectorRegx] Let_def)

theorem detectVaraibles_stateless_witness:
  "detectVaraibles_on (variableDetectorRegx\<lparr>lastIndex := 7\<rparr>) (JStr (lit ''{{ a }} {{ b }}''))
     = (Inr (JArr [JStr (lit ''a''), JStr (lit ''b'')]), variableDetectorRegx)"
proof -
  have h: "pattern (variableDetectorRegx\<lparr>lastIndex := 7\<rparr>) = pattern variableDetectorRegx"
    by simp
  have e: "detectVaraibles (JStr (lit ''{{ a }} {{ b }}''))
             = Inr (JArr [JStr (lit ''a''), JStr (lit ''b'')])"
    by code_simp
  from detectVaraibles_stateless [OF h, of "lit ''{{ a }} {{ b }}''"] show ?thesis
    unfolding e by blast
qed

text \<open>
  Claim C9: whenever the extractor returns an array, every element is a string that is
  a non-empty run of word characters.
\<close>

theorem returned_names_are_words:
  assumes "detectVaraibles text = Inr (JArr ys)"
  shows "list_all is_name_value ys"
proof (cases "text")
  case (JStr s)
  have "list_all is_match (fst (match_loop variableDetectorRegx s []))"
    by (rule match_loop_matches) simp_all
  from map_callback_matches(2) [OF this] assms JStr show ?thesis
    by (auto simp: detectVaraibles_unfold Let_def split: if_splits)
qed (insert assms, simp_all add: detectVaraibles_def detectVaraibles_on_def)

theorem returned_names_are_words_witness:
  "detectVaraibles (JStr (lit ''{{ a_1 }}{{ B2 }} }} {{ c''))
     = Inr (JArr [JStr (lit ''a_1''), JStr (lit ''B2'')])
   \<and> list_all is_name_value [JStr (lit ''a_1''), JStr (lit ''B2'')]"
proof -
  have h: "detectVaraibles (JStr (lit ''{{ a_1 }}{{ B2 }} }} {{ c''))
             = Inr (JArr [JStr (lit ''a_1''), JStr (lit ''B2'')])"
    by code_simp
  from h returned_names_are_words [OF h] show ?thesis by simp
qed

text \<open>
  Claim C10: when \<open>match\<close> finds matches, the returned array is the image of the
  matches under the callback of \<open>map\<close>, of the same length: every match is a string,
  and every mapped name is truthy, so \<open>filter\<close> keeps them all.
\<close>

theorem no_match_discarded:
  assumes "fst (string_match s variableDetectorRegx) = JArr ms"
  shows "\<exists>ys. detectVaraibles (JStr s) = Inr (JArr ys) \<and> length ys = length ms
              \<and> ys = map map_callback ms
              \<and> list_all (\<lambda>m. typeof m = ''string'' \<and> truthy (map_callback m)) ms"
proof -
  let ?A = "fst (match_loop variableDetectorRegx s [])"
  have A: "list_all is_match ?A"
    by (rule match_loop_matches) simp_all
  from assms have ms: "?A = ms" and ne: "?A \<noteq> []"
    by (auto simp: string_match_unfold Let_def split: if_splits)
  from matches_kept [OF A] ms ne show ?thesis
    by (simp add: detectVaraibles_unfold Let_def)
qed

theorem no_match_discarded_witness:
  "fst (string_match (lit ''x {{ a }} y {{ bc }}'') variableDetectorRegx)
     = JArr [JStr (lit ''{{ a }}''), JStr (lit ''{{ bc }}'')]
   \<and> (\<exists>ys. detectVaraibles (JStr (lit ''x {{ a }} y {{ bc }}'')) = Inr (JArr ys)
           \<and> length ys = 2)"
proof -
  have h: "fst (string_match (lit ''x {{ a }} y {{ bc }}'') variableDetectorRegx)
             = JArr [JStr (lit ''{{ a }}''), JStr (lit ''{{ bc }}'')]"
    by code_simp
  from h no_match_discarded [OF h] show ?thesis by auto
qed

end
